theory Spec2Isabelle
  imports Complex_Main "HOL-Library.Product_Lexorder"
begin

section \<open>Data model\<close>

text \<open>
  The replay engine of the F1 race intelligence backend
  (\<^verbatim>\<open>app/services/replay_service.py\<close>, \<^verbatim>\<open>app/services/f1_queries.py\<close> and the
  WebSocket endpoint \<^verbatim>\<open>replay_race\<close>, which stands in \<^verbatim>\<open>app/routers/chat.py\<close>).

  A Python float is an IEEE double; its value is a real number, and comparison, minimum,
  maximum and sorting are exact on these values. The two rounded operations of the replay
  path are kept apart from exact arithmetic, see the section on floating point. NaN and
  infinities are outside the model. Python's unbounded integers are \<open>int\<close>. An ORM row
  is a record; the relationship \<^verbatim>\<open>frame.driver\<close> is the driver row the frame points to.
\<close>

record Driver =
  driver_pk :: int
  code :: string

record TelemetryFrame =
  frame_pk :: int
  session_id :: int
  driver_id :: int
  t_rel_sec :: real
  lap_number :: int
  x_norm :: real
  y_norm :: real
  speed_kph :: "real option"
  throttle :: "real option"
  brake :: "real option"
  gear :: "int option"
  driver :: Driver

record SessionModel =
  session_pk :: int
  race_id :: int
  session_type :: string

record CarPositionSchema =
  driver_code :: string
  car_x :: real
  car_y :: real
  car_speed_kph :: "real option"
  lap :: int

record ReplayFrameSchema =
  frame_t :: real
  cars :: "CarPositionSchema list"

text \<open>The two tables the replay path reads.\<close>

record database =
  sessions :: "SessionModel list"
  telemetry_frames :: "TelemetryFrame list"

datatype error =
    ZeroDivisionError
  | OverflowError
  | SessionNotFoundException
  | MultipleResultsFound
  | WebSocketDisconnect
  | SendFailed

section \<open>Floating point\<close>

text \<open>
  The replay path rounds in two places: the sum \<^verbatim>\<open>current_time + time_step\<close> and the
  quotient \<^verbatim>\<open>1.0 / fps\<close>. Both are operations of the machine, and the program is modelled
  over any pair of them: \<open>fl_add\<close> is the rounded sum, and \<open>fl_recip fps\<close> is the
  rounded quotient for a non-zero \<open>fps\<close>, or nothing when the conversion of \<open>fps\<close> to a
  float raises \<^verbatim>\<open>OverflowError\<close>.
\<close>

record float_ops =
  fl_add :: "real \<Rightarrow> real \<Rightarrow> real"
  fl_recip :: "int \<Rightarrow> real option"

text \<open>
  The operations of IEEE doubles: round to nearest, ties to even, with a significand of 53
  bits. Subnormal results and a sum beyond the largest double are outside this instance.
  An integer is too large for a float from \<open>2 ^ 1024 - 2 ^ 970\<close> on.
\<close>

definition pow2 :: "int \<Rightarrow> real" where
  "pow2 e = (if 0 \<le> e then 2 ^ nat e else 1 / 2 ^ nat (- e))"

definition round_half_even :: "real \<Rightarrow> int" where
  "round_half_even q =
     (let f = \<lfloor>q\<rfloor>; r = q - of_int f
      in if r < 1/2 then f else if 1/2 < r then f + 1 else if even f then f else f + 1)"

definition round_double :: "real \<Rightarrow> real" where
  "round_double x =
     (if x = 0 then 0
      else let ulp = pow2 (\<lfloor>log 2 \<bar>x\<bar>\<rfloor> - 52)
           in of_int (round_half_even (x / ulp)) * ulp)"

definition double_ops :: float_ops where
  "double_ops =
     \<lparr>fl_add = (\<lambda>x y. round_double (x + y)),
      fl_recip = (\<lambda>n. if 2 ^ 1024 - 2 ^ 970 \<le> \<bar>n\<bar> then None
                      else Some (round_double (1 / round_double (of_int n))))\<rparr>"

section \<open>Store queries (f1\_queries.py)\<close>

text \<open>
  \<^verbatim>\<open>scalar_one_or_none\<close> returns the only row, nothing when there is none, and raises when
  there are several.
\<close>

definition get_race_main_session :: "database \<Rightarrow> int \<Rightarrow> error + SessionModel" where
  "get_race_main_session db rid =
     (case filter (\<lambda>s. race_id s = rid \<and> session_type s = ''RACE'') (sessions db) of
        [] \<Rightarrow> Inl SessionNotFoundException
      | [s] \<Rightarrow> Inr s
      | _ \<Rightarrow> Inl MultipleResultsFound)"

text \<open>
  \<^verbatim>\<open>if driver_ids:\<close> is Python truthiness: \<^verbatim>\<open>None\<close> and the empty list both skip the
  driver restriction. The rows come back ordered by time, then driver.
\<close>

definition get_telemetry_frames ::
  "database \<Rightarrow> int \<Rightarrow> int list option \<Rightarrow> TelemetryFrame list" where
  "get_telemetry_frames db sid driver_ids =
     (let stmt = filter (\<lambda>f. session_id f = sid) (telemetry_frames db);
          stmt = (case driver_ids of
                    None \<Rightarrow> stmt
                  | Some ds \<Rightarrow>
                      if ds \<noteq> [] then filter (\<lambda>f. driver_id f \<in> set ds) stmt else stmt)
      in sort_key (\<lambda>f. (t_rel_sec f, driver_id f)) stmt)"

section \<open>Frame assembly (replay\_service.py)\<close>

text \<open>
  A Python dict keeps its keys in insertion order; assigning to a key that is present
  replaces the value where it stands. The dict is an association list with distinct keys.
\<close>

fun dict_set :: "('k \<times> 'v) list \<Rightarrow> 'k \<Rightarrow> 'v \<Rightarrow> ('k \<times> 'v) list" where
  "dict_set [] k v = [(k, v)]"
| "dict_set ((k', v') # d) k v =
     (if k' = k then (k, v) # d else (k', v') # dict_set d k v)"

definition group_frames_by_driver :: "TelemetryFrame list \<Rightarrow> (int \<times> TelemetryFrame) list" where
  "group_frames_by_driver frames = foldl (\<lambda>d frame. dict_set d (driver_id frame) frame) [] frames"

definition car_position :: "TelemetryFrame \<Rightarrow> CarPositionSchema" where
  "car_position frame =
     \<lparr>driver_code = code (driver frame),
      car_x = x_norm frame,
      car_y = y_norm frame,
      car_speed_kph = speed_kph frame,
      lap = lap_number frame\<rparr>"

definition build_replay_frame :: "real \<Rightarrow> TelemetryFrame list \<Rightarrow> ReplayFrameSchema" where
  "build_replay_frame current_time frames =
     \<lparr>frame_t = current_time,
      cars = map (\<lambda>(did, frame). car_position frame) (group_frames_by_driver frames)\<rparr>"

section \<open>The replay sequencer\<close>

text \<open>
  The inner \<^verbatim>\<open>while frame_index < len(telemetry_frames)\<close> loop of one iteration: it
  returns the window collected and the cursor where it stopped.
\<close>

function scan_window ::
  "TelemetryFrame list \<Rightarrow> nat \<Rightarrow> real \<Rightarrow> real \<Rightarrow> TelemetryFrame list
     \<Rightarrow> TelemetryFrame list \<times> nat" where
  "scan_window fs frame_index current_time window_end window_frames =
     (if frame_index < length fs then
        (let frame = fs ! frame_index in
         if t_rel_sec frame > window_end then (window_frames, frame_index)
         else scan_window fs (frame_index + 1) current_time window_end
                (if t_rel_sec frame \<ge> current_time then window_frames @ [frame]
                 else window_frames))
      else (window_frames, frame_index))"
  by pat_completeness auto
termination
  by (relation "measure (\<lambda>(fs, i, c, e, w). length fs - i)") auto

declare scan_window.simps [simp del]

text \<open>
  The outer \<^verbatim>\<open>while current_time <= max_time\<close> loop, over the machine's sum \<open>add\<close>.
  The end of the window and the next \<open>current_time\<close> are the same sum. The frames yielded
  so far are accumulated in \<open>out\<close>; a run that never leaves the loop has the value
  \<open>None\<close>. The pacing \<^verbatim>\<open>asyncio.sleep\<close> has no effect on the values and is left out.
\<close>

partial_function (option) stream_loop ::
  "(real \<Rightarrow> real \<Rightarrow> real) \<Rightarrow> TelemetryFrame list \<Rightarrow> real \<Rightarrow> real \<Rightarrow> real \<Rightarrow> nat
     \<Rightarrow> ReplayFrameSchema list \<Rightarrow> ReplayFrameSchema list option" where
  "stream_loop add fs max_time time_step current_time frame_index out =
     (if current_time \<le> max_time then
        stream_loop add fs max_time time_step (add current_time time_step)
          (snd (scan_window fs frame_index current_time (add current_time time_step) []))
          (let window_frames =
                 fst (scan_window fs frame_index current_time (add current_time time_step) [])
           in if window_frames \<noteq> [] then out @ [build_replay_frame current_time window_frames]
              else out)
      else Some out)"

declare stream_loop.simps [code]

text \<open>
  What one run of the generator did: the store queries it issued, the frames it yielded,
  and the exception that ended it, if any.
\<close>

record generator_run =
  store_queries :: "(int \<times> int list option) list"
  yielded :: "ReplayFrameSchema list"
  raised :: "error option"

definition min_time :: "TelemetryFrame list \<Rightarrow> real" where
  "min_time fs = Min (set (map t_rel_sec fs))"

definition max_time :: "TelemetryFrame list \<Rightarrow> real" where
  "max_time fs = Max (set (map t_rel_sec fs))"

definition generate_replay_frames ::
  "float_ops \<Rightarrow> database \<Rightarrow> int \<Rightarrow> int \<Rightarrow> int list option \<Rightarrow> generator_run option" where
  "generate_replay_frames ops db sid fps driver_ids =
     (let telemetry = get_telemetry_frames db sid driver_ids;
          queries = [(sid, driver_ids)]
      in if telemetry = [] then
           Some \<lparr>store_queries = queries, yielded = [], raised = None\<rparr>
         else if fps = 0 then
           Some \<lparr>store_queries = queries, yielded = [], raised = Some ZeroDivisionError\<rparr>
         else
           (case fl_recip ops fps of
              None \<Rightarrow>
                Some \<lparr>store_queries = queries, yielded = [], raised = Some OverflowError\<rparr>
            | Some time_step \<Rightarrow>
                map_option (\<lambda>out. \<lparr>store_queries = queries, yielded = out, raised = None\<rparr>)
                  (stream_loop (fl_add ops) (sort_key t_rel_sec telemetry) (max_time telemetry)
                     time_step (min_time telemetry) 0 [])))"

section \<open>Delivery (replay\_session\_websocket and the endpoint replay\_race)\<close>

text \<open>
  The frame sink is \<^verbatim>\<open>websocket.send_json\<close>. Its \<open>k\<close>-th call either succeeds, raises
  \<^verbatim>\<open>WebSocketDisconnect\<close>, or raises another exception; \<open>sink k\<close> says which. The trace
  lists every call made, with its outcome.
\<close>

datatype message = Frame ReplayFrameSchema | Complete | ErrorMessage error

datatype send_outcome = Sent | Disconnected | Broken

type_synonym trace = "(message \<times> send_outcome) list"

fun send_exception :: "send_outcome \<Rightarrow> error option" where
  "send_exception Sent = None"
| "send_exception Disconnected = Some WebSocketDisconnect"
| "send_exception Broken = Some SendFailed"

text \<open>
  \<^verbatim>\<open>async for frame in generate_replay_frames(...): await send_callback(...)\<close>: the
  frames are sent in the order they were yielded, and the first failing send ends the loop
  with its exception.
\<close>

fun send_frames ::
  "(nat \<Rightarrow> send_outcome) \<Rightarrow> ReplayFrameSchema list \<Rightarrow> trace \<Rightarrow> trace \<times> error option" where
  "send_frames sink [] tr = (tr, None)"
| "send_frames sink (f # fs) tr =
     (case send_exception (sink (length tr)) of
        None \<Rightarrow> send_frames sink fs (tr @ [(Frame f, Sent)])
      | Some e \<Rightarrow> (tr @ [(Frame f, sink (length tr))], Some e))"

definition replay_session_websocket ::
  "float_ops \<Rightarrow> (nat \<Rightarrow> send_outcome) \<Rightarrow> database \<Rightarrow> int \<Rightarrow> int
     \<Rightarrow> (trace \<times> error option) option" where
  "replay_session_websocket ops sink db sid fps =
     (case generate_replay_frames ops db sid fps None of
        None \<Rightarrow> None
      | Some run \<Rightarrow>
          (case send_frames sink (yielded run) [] of
             (tr, Some e) \<Rightarrow> Some (tr, Some e)
           | (tr, None) \<Rightarrow> Some (tr, raised run)))"

text \<open>
  The \<^verbatim>\<open>except\<close> clauses of the endpoint: a disconnect is only logged; any other
  exception is reported to the client, and a failure of that report is swallowed.
  Accepting and closing the socket send no message and are left out. The generator has no
  effect but the frames it yields, so its run is taken whole and the sends follow it.
\<close>

definition on_exception :: "(nat \<Rightarrow> send_outcome) \<Rightarrow> trace \<Rightarrow> error \<Rightarrow> trace" where
  "on_exception sink tr e =
     (if e = WebSocketDisconnect then tr
      else tr @ [(ErrorMessage e, sink (length tr))])"

definition replay_race ::
  "float_ops \<Rightarrow> (nat \<Rightarrow> send_outcome) \<Rightarrow> database \<Rightarrow> int \<Rightarrow> int \<Rightarrow> trace option" where
  "replay_race ops sink db rid replay_fps =
     (case get_race_main_session db rid of
        Inl e \<Rightarrow> Some (on_exception sink [] e)
      | Inr session \<Rightarrow>
          (case replay_session_websocket ops sink db (session_pk session) replay_fps of
             None \<Rightarrow> None
           | Some (tr, Some e) \<Rightarrow> Some (on_exception sink tr e)
           | Some (tr, None) \<Rightarrow>
               (case send_exception (sink (length tr)) of
                  None \<Rightarrow> Some (tr @ [(Complete, Sent)])
                | Some e \<Rightarrow>
                    Some (on_exception sink (tr @ [(Complete, sink (length tr))]) e))))"

section \<open>The loop, iteration by iteration\<close>

text \<open>
  The values \<open>current_time\<close> takes: it starts at \<open>c\<close>, and each iteration adds the step
  with the machine's sum.
\<close>

fun grid :: "(real \<Rightarrow> real \<Rightarrow> real) \<Rightarrow> real \<Rightarrow> real \<Rightarrow> nat \<Rightarrow> real" where
  "grid add time_step c 0 = c"
| "grid add time_step c (Suc k) = add (grid add time_step c k) time_step"

text \<open>
  The windows the outer loop hands to the frame assembler, one per iteration, with the
  time of the iteration: the same recursion as \<open>stream_loop\<close>, run for a given
  number of iterations and keeping every window, empty or not. \<open>loop_cursor\<close> is the
  cursor after these iterations.
\<close>

fun loop_windows ::
  "(real \<Rightarrow> real \<Rightarrow> real) \<Rightarrow> TelemetryFrame list \<Rightarrow> real \<Rightarrow> real \<Rightarrow> nat \<Rightarrow> nat
     \<Rightarrow> (real \<times> TelemetryFrame list) list" where
  "loop_windows add fs time_step current_time frame_index 0 = []"
| "loop_windows add fs time_step current_time frame_index (Suc n) =
     (current_time,
      fst (scan_window fs frame_index current_time (add current_time time_step) []))
       # loop_windows add fs time_step (add current_time time_step)
           (snd (scan_window fs frame_index current_time (add current_time time_step) [])) n"


text \<open>What the loop yields for a list of windows: a frame for each non-empty one.\<close>

definition emit :: "(real \<times> TelemetryFrame list) list \<Rightarrow> ReplayFrameSchema list" where
  "emit ws = map (\<lambda>(c, w). build_replay_frame c w) (filter (\<lambda>(c, w). w \<noteq> []) ws)"

text \<open>
  The interval of the \<open>k\<close>-th window of a run that starts at \<open>c\<close>: from the \<open>k\<close>-th
  value of \<open>current_time\<close> to the next one, closed at both ends for the first window,
  open at the left and closed at the right afterwards.
\<close>

definition in_window ::
  "(real \<Rightarrow> real \<Rightarrow> real) \<Rightarrow> real \<Rightarrow> real \<Rightarrow> nat \<Rightarrow> TelemetryFrame \<Rightarrow> bool" where
  "in_window add time_step c k f \<longleftrightarrow>
     (if k = 0 then c \<le> t_rel_sec f else grid add time_step c k < t_rel_sec f)
     \<and> t_rel_sec f \<le> grid add time_step c (Suc k)"

section \<open>Examples and the words of the specification\<close>

text \<open>
  Concrete rows for the examples: telemetry of session 1, the race session of race 7. All
  their times and coordinates are doubles.
\<close>

definition example_frame :: "int \<Rightarrow> int \<Rightarrow> real \<Rightarrow> real \<Rightarrow> TelemetryFrame" where
  "example_frame pk did t x =
     \<lparr>frame_pk = pk, session_id = 1, driver_id = did, t_rel_sec = t, lap_number = 1,
      x_norm = x, y_norm = x, speed_kph = None, throttle = None, brake = None, gear = None,
      driver = \<lparr>driver_pk = did, code = (if did = 1 then ''VER'' else ''LEC'')\<rparr>\<rparr>"

definition example_db :: "TelemetryFrame list \<Rightarrow> database" where
  "example_db fs =
     \<lparr>sessions = [\<lparr>session_pk = 1, race_id = 7, session_type = ''RACE''\<rparr>],
      telemetry_frames = fs\<rparr>"

text \<open>Two samples exactly one step apart at two frames per second.\<close>

abbreviation boundary_samples :: "TelemetryFrame list" where
  "boundary_samples \<equiv> [example_frame 1 1 0 (1/8), example_frame 2 2 (1/2) (1/2)]"

text \<open>Three samples that fall into two windows at two frames per second.\<close>

abbreviation three_samples :: "TelemetryFrame list" where
  "three_samples \<equiv>
     [example_frame 1 1 0 (1/8), example_frame 2 2 (1/2) (1/2), example_frame 3 1 (3/4) (5/8)]"

text \<open>
  Two samples two seconds apart, so late in the session that a double absorbs a step of
  one second.
\<close>

abbreviation late_samples :: "TelemetryFrame list" where
  "late_samples \<equiv>
     [example_frame 1 1 (10 ^ 16) (1/8), example_frame 2 2 (10 ^ 16 + 2) (1/2)]"

text \<open>
  The window as the specification words it: the samples of the half-open interval from
  \<open>current_time\<close> up to, and without, \<open>current_time + time_step\<close>.
\<close>

definition spec_window :: "real \<Rightarrow> real \<Rightarrow> TelemetryFrame list \<Rightarrow> TelemetryFrame list" where
  "spec_window current_time time_step fs =
     filter (\<lambda>f. current_time \<le> t_rel_sec f \<and> t_rel_sec f < current_time + time_step) fs"

text \<open>
  The frame times as the specification words them: the grid points from \<open>min_time\<close> in
  steps of \<open>time_step\<close>, up to \<open>max_time\<close>, whose half-open window holds a sample.
\<close>

definition iterations :: "real \<Rightarrow> real \<Rightarrow> real \<Rightarrow> nat" where
  "iterations mx time_step current_time =
     (if current_time \<le> mx then nat \<lfloor>(mx - current_time) / time_step\<rfloor> + 1 else 0)"

definition spec_frame_times :: "TelemetryFrame list \<Rightarrow> real \<Rightarrow> real list" where
  "spec_frame_times tel time_step =
     filter (\<lambda>c. spec_window c time_step tel \<noteq> [])
       (map (\<lambda>k. min_time tel + real k * time_step)
          [0..<iterations (max_time tel) time_step (min_time tel)])"

section \<open>Grouping by driver\<close>

lemma dict_set_map:
  "distinct ds \<Longrightarrow> dict_set (map (\<lambda>d. (d, g d)) ds) k v =
     (if k \<in> set ds then map (\<lambda>d. (d, (g(k := v)) d)) ds
      else map (\<lambda>d. (d, g d)) ds @ [(k, v)])"
  by (induction ds) auto

lemma group_snoc:
  "group_frames_by_driver (fs @ [f]) = dict_set (group_frames_by_driver fs) (driver_id f) f"
  by (simp add: group_frames_by_driver_def)

lemma group_frames_by_driver_eq:
  "group_frames_by_driver fs =
     map (\<lambda>d. (d, last (filter (\<lambda>f. driver_id f = d) fs))) (rev (remdups (rev (map driver_id fs))))"
proof (induction fs rule: rev_induct)
  case Nil
  show ?case by (simp add: group_frames_by_driver_def)
next
  case (snoc f fs)
  let ?g = "\<lambda>d. last (filter (\<lambda>f. driver_id f = d) fs)"
  let ?ds = "rev (remdups (rev (map driver_id fs)))"
  have set_ds: "set ?ds = driver_id ` set fs" by simp
  have "group_frames_by_driver (fs @ [f]) = dict_set (map (\<lambda>d. (d, ?g d)) ?ds) (driver_id f) f"
    by (simp only: group_snoc snoc.IH)
  also have "\<dots> = (if driver_id f \<in> set ?ds then map (\<lambda>d. (d, (?g(driver_id f := f)) d)) ?ds
      else map (\<lambda>d. (d, ?g d)) ?ds @ [(driver_id f, f)])"
    by (rule dict_set_map) simp
  also have "\<dots> = map (\<lambda>d. (d, last (filter (\<lambda>f. driver_id f = d) (fs @ [f]))))
        (rev (remdups (rev (map driver_id (fs @ [f])))))"
    by (auto simp: image_iff)
  finally show ?case .
qed

section \<open>The window scan\<close>

lemma scan_window_eq:
  "scan_window fs i ct we acc =
     (acc @ filter (\<lambda>f. ct \<le> t_rel_sec f) (takeWhile (\<lambda>f. t_rel_sec f \<le> we) (drop i fs)),
      i + length (takeWhile (\<lambda>f. t_rel_sec f \<le> we) (drop i fs)))"
proof (induction fs i ct we acc rule: scan_window.induct)
  case (1 fs i ct we acc)
  show ?case
  proof (cases "i < length fs")
    case False
    then show ?thesis by (simp add: scan_window.simps [of fs i])
  next
    case True
    then have d: "drop i fs = fs ! i # drop (Suc i) fs"
      by (simp add: Cons_nth_drop_Suc)
    show ?thesis
    proof (cases "we < t_rel_sec (fs ! i)")
      case True
      with \<open>i < length fs\<close> show ?thesis
        by (simp add: scan_window.simps [of fs i] d)
    next
      case False
      with \<open>i < length fs\<close> "1.IH" [of "fs ! i"] show ?thesis
        by (simp add: scan_window.simps [of fs i] d)
    qed
  qed
qed

lemma takeWhile_sorted_filter:
  "sorted (map t_rel_sec xs) \<Longrightarrow>
     takeWhile (\<lambda>f. t_rel_sec f \<le> b) xs = filter (\<lambda>f. t_rel_sec f \<le> b) xs"
  by (induction xs) (auto intro!: filter_False [symmetric] simp: )

lemma dropWhile_sorted_filter:
  "sorted (map t_rel_sec xs) \<Longrightarrow>
     dropWhile (\<lambda>f. t_rel_sec f \<le> b) xs = filter (\<lambda>f. b < t_rel_sec f) xs"
  by (induction xs) (auto intro!: filter_True [symmetric])

lemma sorted_drop_t: "sorted (map t_rel_sec fs) \<Longrightarrow> sorted (map t_rel_sec (drop i fs))"
  by (simp add: drop_map [symmetric])

lemma scan_window_sorted:
  assumes "sorted (map t_rel_sec fs)" and "\<forall>f\<in>set (drop i fs). ct \<le> t_rel_sec f"
  shows "fst (scan_window fs i ct we []) = takeWhile (\<lambda>f. t_rel_sec f \<le> we) (drop i fs)"
    and "drop (snd (scan_window fs i ct we [])) fs = dropWhile (\<lambda>f. t_rel_sec f \<le> we) (drop i fs)"
proof -
  have "\<forall>f\<in>set (takeWhile (\<lambda>f. t_rel_sec f \<le> we) (drop i fs)). ct \<le> t_rel_sec f"
    using assms(2) by (meson set_takeWhileD)
  then show "fst (scan_window fs i ct we []) = takeWhile (\<lambda>f. t_rel_sec f \<le> we) (drop i fs)"
    by (simp add: scan_window_eq)
  show "drop (snd (scan_window fs i ct we [])) fs = dropWhile (\<lambda>f. t_rel_sec f \<le> we) (drop i fs)"
    by (simp add: scan_window_eq dropWhile_eq_drop add.commute)
qed

section \<open>The outer loop as a list of windows\<close>

lemma emit_Cons:
  "emit ((c, w) # ws) = (if w \<noteq> [] then build_replay_frame c w # emit ws else emit ws)"
  by (simp add: emit_def)

lemma grid_shift: "grid add step (add c step) k = grid add step c (Suc k)"
  by (induction k) simp_all

lemma stream_loop_ends:
  "mx < grid add step ct n \<Longrightarrow> \<forall>k<n. grid add step ct k \<le> mx \<Longrightarrow>
   stream_loop add fs mx step ct i out = Some (out @ emit (loop_windows add fs step ct i n))"
proof (induction n arbitrary: ct i out)
  case 0
  then show ?case
    by (subst stream_loop.simps) (simp add: emit_def)
next
  case (Suc n)
  from Suc.prems(2) have le: "ct \<le> mx" by force
  have a: "mx < grid add step (add ct step) n"
    using Suc.prems(1) by (simp only: grid_shift)
  have b: "\<forall>k<n. grid add step (add ct step) k \<le> mx"
    using Suc.prems(2) by (simp only: grid_shift) auto
  show ?case
    by (subst stream_loop.simps) (simp add: le Suc.IH [OF a b] emit_Cons Let_def)
qed

lemma stream_loop_returns:
  assumes "stream_loop add fs mx step ct i out = Some y"
  shows "\<exists>n. mx < grid add step ct n \<and> (\<forall>k<n. grid add step ct k \<le> mx)"
proof (rule stream_loop.raw_induct
    [where P = "\<lambda>add fs mx step ct i out y.
                  \<exists>n. mx < grid add step ct n \<and> (\<forall>k<n. grid add step ct k \<le> mx)",
     OF _ assms])
  fix stream_loop' add fs mx step ct i out and y :: "ReplayFrameSchema list"
  assume IH: "\<And>add fs mx step ct i out y. stream_loop' add fs mx step ct i out = Some y \<Longrightarrow>
                \<exists>n. mx < grid add step ct n \<and> (\<forall>k<n. grid add step ct k \<le> mx)"
    and body: "(if ct \<le> mx then
        stream_loop' add fs mx step (add ct step)
          (snd (scan_window fs i ct (add ct step) []))
          (let window_frames = fst (scan_window fs i ct (add ct step) [])
           in if window_frames \<noteq> [] then out @ [build_replay_frame ct window_frames] else out)
      else Some out) = Some y"
  show "\<exists>n. mx < grid add step ct n \<and> (\<forall>k<n. grid add step ct k \<le> mx)"
  proof (cases "ct \<le> mx")
    case True
    with body IH obtain n where n: "mx < grid add step (add ct step) n"
      "\<forall>k<n. grid add step (add ct step) k \<le> mx"
      by (simp only: if_True) blast
    have "\<forall>k<Suc n. grid add step ct k \<le> mx"
    proof (intro allI impI)
      fix k assume "k < Suc n"
      then show "grid add step ct k \<le> mx"
        using True n(2) by (cases k) (simp_all add: grid_shift [symmetric] del: grid.simps(2))
    qed
    moreover have "mx < grid add step ct (Suc n)"
      using n(1) by (simp only: grid_shift)
    ultimately show ?thesis by blast
  next
    case False
    then have "mx < grid add step ct 0 \<and> (\<forall>k<0. grid add step ct k \<le> mx)" by simp
    then show ?thesis by blast
  qed
qed







lemma grid_mono:
  "\<forall>k<n. grid add step c k \<le> grid add step c (Suc k) \<Longrightarrow> j \<le> k \<Longrightarrow> k \<le> n \<Longrightarrow>
   grid add step c j \<le> grid add step c k"
proof (induction k)
  case 0
  then show ?case by simp
next
  case (Suc k)
  show ?case
  proof (cases "j = Suc k")
    case True
    then show ?thesis by simp
  next
    case False
    with Suc.prems have "j \<le> k" "k < n" by simp_all
    with Suc have "grid add step c j \<le> grid add step c k" by simp
    moreover have "grid add step c k \<le> grid add step c (Suc k)"
      using Suc.prems(1) \<open>k < n\<close> by blast
    ultimately show ?thesis by linarith
  qed
qed

lemma loop_windows_closed:
  assumes "sorted (map t_rel_sec fs)"
  shows "\<forall>f\<in>set (drop i fs). ct \<le> t_rel_sec f \<Longrightarrow>
         \<forall>k<n. grid add step ct k \<le> grid add step ct (Suc k) \<Longrightarrow>
         loop_windows add fs step ct i n =
           map (\<lambda>k. (grid add step ct k, filter (in_window add step ct k) (drop i fs))) [0..<n]"
proof (induction n arbitrary: ct i)
  case 0
  show ?case by simp
next
  case (Suc n)
  let ?D = "drop i fs"
  let ?we = "add ct step"
  let ?i' = "snd (scan_window fs i ct ?we [])"
  have sD: "sorted (map t_rel_sec ?D)" using assms by (rule sorted_drop_t)
  have w0: "fst (scan_window fs i ct ?we []) = filter (in_window add step ct 0) ?D"
  proof -
    have "fst (scan_window fs i ct ?we []) = filter (\<lambda>f. t_rel_sec f \<le> ?we) ?D"
      using scan_window_sorted(1) [OF assms Suc.prems(1)] takeWhile_sorted_filter [OF sD] by simp
    also have "\<dots> = filter (in_window add step ct 0) ?D"
      using Suc.prems(1) by (intro filter_cong) (auto simp: in_window_def)
    finally show ?thesis .
  qed
  have d': "drop ?i' fs = filter (\<lambda>f. ?we < t_rel_sec f) ?D"
    using scan_window_sorted(2) [OF assms Suc.prems(1)] dropWhile_sorted_filter [OF sD] by simp
  then have H': "\<forall>f\<in>set (drop ?i' fs). ?we \<le> t_rel_sec f" by auto
  have mono': "\<forall>k<n. grid add step ?we k \<le> grid add step ?we (Suc k)"
    using Suc.prems(2) by (simp only: grid_shift) auto
  have rest: "loop_windows add fs step ?we ?i' n =
      map (\<lambda>k. (grid add step ct (Suc k), filter (in_window add step ct (Suc k)) ?D)) [0..<n]"
  proof -
    have "filter (in_window add step ?we k) (drop ?i' fs) = filter (in_window add step ct (Suc k)) ?D"
      if "k < n" for k
    proof -
      have "grid add step ct (Suc 0) \<le> grid add step ct (Suc k)"
        using grid_mono [OF Suc.prems(2), of "Suc 0" "Suc k"] that by simp
      then have le: "?we \<le> grid add step ?we k" by (simp only: grid_shift) simp
      have g1: "grid add step ct (Suc 0) = ?we" by simp
      show ?thesis unfolding d' filter_filter
        using le by (intro filter_cong) (auto simp: in_window_def grid_shift g1 simp del: grid.simps(2))
    qed
    then have "map (\<lambda>k. (grid add step ?we k, filter (in_window add step ?we k) (drop ?i' fs))) [0..<n]
        = map (\<lambda>k. (grid add step ct (Suc k), filter (in_window add step ct (Suc k)) ?D)) [0..<n]"
      by (intro map_cong) (simp_all add: grid_shift del: grid.simps(2))
    then show ?thesis by (simp only: Suc.IH [OF H' mono'])
  qed
  have upt: "[0..<Suc n] = 0 # map Suc [0..<n]"
    by (simp add: map_Suc_upt upt_conv_Cons del: upt_Suc)
  show ?case
    unfolding upt by (simp add: w0 rest o_def del: upt_Suc grid.simps(2))
qed

lemma grid_stuck_from:
  "grid add step c (Suc k) = grid add step c k \<Longrightarrow> grid add step c (k + m) = grid add step c k"
  by (induction m) simp_all

lemma grid_strict:
  assumes "mx < grid add step c n" and "\<forall>k<n. grid add step c k \<le> mx"
    and "\<forall>k<n. grid add step c k \<le> grid add step c (Suc k)"
  shows "\<forall>k<n. grid add step c k < grid add step c (Suc k)"
proof (intro allI impI)
  fix k assume k: "k < n"
  have "grid add step c (Suc k) \<noteq> grid add step c k"
  proof
    assume "grid add step c (Suc k) = grid add step c k"
    then have "grid add step c (k + (n - k)) = grid add step c k" by (rule grid_stuck_from)
    then have "grid add step c n = grid add step c k" using k by simp
    with assms(1,2) k show False by force
  qed
  with assms(3) k show "grid add step c k < grid add step c (Suc k)" by force
qed

lemma grid_strict_mono:
  "\<forall>k<n. grid add step c k < grid add step c (Suc k) \<Longrightarrow> j < k \<Longrightarrow> k \<le> n \<Longrightarrow>
   grid add step c j < grid add step c k"
proof (induction k)
  case 0
  then show ?case by simp
next
  case (Suc k)
  have step: "grid add step c k < grid add step c (Suc k)"
    using Suc.prems by simp
  show ?case
  proof (cases "j = k")
    case True
    with step show ?thesis by simp
  next
    case False
    with Suc.prems have "j < k" "k \<le> n" by simp_all
    with Suc have "grid add step c j < grid add step c k" by simp
    with step show ?thesis by linarith
  qed
qed

lemma sorted_wrt_grid:
  assumes "\<forall>k<n. grid add step c k < grid add step c (Suc k)"
  shows "sorted_wrt (<) (map (grid add step c) (filter P [0..<n]))"
proof -
  have "sorted_wrt (<) (filter P [0..<n])"
    by (rule sorted_wrt_filter) (simp add: sorted_wrt_upt)
  then have "sorted_wrt (\<lambda>j k. grid add step c j < grid add step c k) (filter P [0..<n])"
  proof (rule sorted_wrt_mono_rel [rotated])
    fix j k assume "j \<in> set (filter P [0..<n])" "k \<in> set (filter P [0..<n])" "j < k"
    then show "grid add step c j < grid add step c k"
      using grid_strict_mono [OF assms, of j k] by simp
  qed
  then show ?thesis by (simp add: sorted_wrt_map)
qed

section \<open>The generator in closed form\<close>

lemma set_sort_key_t [simp]: "set (sort_key t_rel_sec tel) = set tel"
  by simp

lemma min_time_le: "f \<in> set tel \<Longrightarrow> min_time tel \<le> t_rel_sec f"
  by (simp add: min_time_def)

lemma le_max_time: "f \<in> set tel \<Longrightarrow> t_rel_sec f \<le> max_time tel"
  by (simp add: max_time_def)

lemma min_le_max_time: "tel \<noteq> [] \<Longrightarrow> min_time tel \<le> max_time tel"
  using min_time_le [of "hd tel" tel] le_max_time [of "hd tel" tel] by simp

lemma emit_map:
  "emit (map (\<lambda>k. (c k, w k)) ks) =
     map (\<lambda>k. build_replay_frame (c k) (w k)) (filter (\<lambda>k. w k \<noteq> []) ks)"
  by (induction ks) (simp_all add: emit_def)

lemma build_replay_frame_cars_nonempty: "w \<noteq> [] \<Longrightarrow> cars (build_replay_frame c w) \<noteq> []"
  by (simp add: build_replay_frame_def group_frames_by_driver_eq)

lemma frame_t_build [simp]: "frame_t (build_replay_frame c w) = c"
  by (simp add: build_replay_frame_def)

lemma filter_nonempty_sort_key:
  "filter P (sort_key t_rel_sec tel) \<noteq> [] \<longleftrightarrow> filter P tel \<noteq> []"
  by (simp add: filter_empty_conv)

lemma generate_replay_frames_ends:
  assumes "get_telemetry_frames db sid dids = tel" and "tel \<noteq> []" and "fps \<noteq> 0"
    and "fl_recip ops fps = Some step"
    and "max_time tel < grid (fl_add ops) step (min_time tel) n"
    and "\<forall>k<n. grid (fl_add ops) step (min_time tel) k \<le> max_time tel"
  shows "generate_replay_frames ops db sid fps dids =
     Some \<lparr>store_queries = [(sid, dids)],
           yielded = emit (loop_windows (fl_add ops) (sort_key t_rel_sec tel) step
                       (min_time tel) 0 n),
           raised = None\<rparr>"
  using assms(1-4) stream_loop_ends [OF assms(5,6)]
  by (simp add: generate_replay_frames_def Let_def)

lemma generate_replay_frames_returns:
  assumes "get_telemetry_frames db sid dids = tel" and "tel \<noteq> []" and "fps \<noteq> 0"
    and "fl_recip ops fps = Some step"
    and "generate_replay_frames ops db sid fps dids = Some run"
  shows "\<exists>n. max_time tel < grid (fl_add ops) step (min_time tel) n
           \<and> (\<forall>k<n. grid (fl_add ops) step (min_time tel) k \<le> max_time tel)"
proof -
  from assms obtain out where
    "stream_loop (fl_add ops) (sort_key t_rel_sec tel) (max_time tel) step (min_time tel) 0 [] = Some out"
    by (auto simp: generate_replay_frames_def Let_def)
  then show ?thesis by (rule stream_loop_returns)
qed


lemma run_windows_closed:
  assumes "\<forall>k<n. grid add step (min_time tel) k \<le> grid add step (min_time tel) (Suc k)"
  shows "loop_windows add (sort_key t_rel_sec tel) step (min_time tel) 0 n =
     map (\<lambda>k. (grid add step (min_time tel) k,
               filter (in_window add step (min_time tel) k) (sort_key t_rel_sec tel))) [0..<n]"
proof -
  have "sorted (map t_rel_sec (sort_key t_rel_sec tel))" by (rule sorted_sort_key)
  moreover have "\<forall>f\<in>set (drop 0 (sort_key t_rel_sec tel)). min_time tel \<le> t_rel_sec f"
    by (simp add: min_time_le)
  ultimately show ?thesis
    using loop_windows_closed [of "sort_key t_rel_sec tel" 0 "min_time tel" n add step] assms
    by simp
qed

lemma generate_replay_frames_overflow:
  assumes "get_telemetry_frames db sid dids \<noteq> []" and "fps \<noteq> 0" and "fl_recip ops fps = None"
  shows "generate_replay_frames ops db sid fps dids =
     Some \<lparr>store_queries = [(sid, dids)], yielded = [], raised = Some OverflowError\<rparr>"
  using assms by (simp add: generate_replay_frames_def Let_def)

section \<open>Exact arithmetic\<close>

text \<open>
  Were the sum exact, \<open>current_time\<close> would run through \<open>c + k * step\<close>, and with a positive
  step the loop would end after \<open>iterations\<close> rounds.
\<close>

lemma grid_exact: "grid (+) step c k = c + real k * step"
  by (induction k) (simp_all add: algebra_simps)

lemma exact_run_ends:
  assumes "0 < step"
  shows "mx < grid (+) step c (iterations mx step c)"
    and "\<forall>k<iterations mx step c. grid (+) step c k \<le> mx"
proof -
  show "mx < grid (+) step c (iterations mx step c)"
  proof (cases "c \<le> mx")
    case False
    then show ?thesis by (simp add: iterations_def)
  next
    case True
    let ?x = "(mx - c) / step"
    have "0 \<le> ?x" using True assms by simp
    then have "real (nat \<lfloor>?x\<rfloor> + 1) = real_of_int \<lfloor>?x\<rfloor> + 1" by simp
    moreover have "?x < real_of_int \<lfloor>?x\<rfloor> + 1" by linarith
    moreover have "iterations mx step c = nat \<lfloor>?x\<rfloor> + 1"
      using True by (simp add: iterations_def)
    ultimately have "?x < real (iterations mx step c)" by (simp only:)
    then have "mx - c < real (iterations mx step c) * step"
      using assms by (simp add: field_simps)
    then show ?thesis by (simp add: grid_exact)
  qed
  show "\<forall>k<iterations mx step c. grid (+) step c k \<le> mx"
  proof (intro allI impI)
    fix k assume k: "k < iterations mx step c"
    then have le: "c \<le> mx" by (auto simp: iterations_def split: if_splits)
    then have "0 \<le> (mx - c) / step" using assms by simp
    then have "0 \<le> \<lfloor>(mx - c) / step\<rfloor>" by simp
    moreover have "k \<le> nat \<lfloor>(mx - c) / step\<rfloor>"
      using k le by (simp add: iterations_def)
    ultimately have "int k \<le> \<lfloor>(mx - c) / step\<rfloor>" by linarith
    then have "real k \<le> (mx - c) / step" by (simp add: le_floor_iff)
    then have "real k * step \<le> mx - c" using assms by (simp add: field_simps)
    then show "grid (+) step c k \<le> mx" by (simp add: grid_exact)
  qed
qed

section \<open>Rounding to a double\<close>

lemma pow2_powr: "pow2 e = 2 powr of_int e"
proof (cases "0 \<le> e")
  case True
  then show ?thesis by (simp add: pow2_def powr_realpow [symmetric])
next
  case False
  then have "2 powr real_of_int e = 1 / 2 powr real_of_int (- e)"
    by (simp add: powr_minus field_simps)
  also have "2 powr real_of_int (- e) = 2 ^ nat (- e)"
    using False by (simp add: powr_realpow [symmetric])
  finally show ?thesis using False by (simp add: pow2_def)
qed

lemma round_double_binade:
  assumes "pow2 e \<le> \<bar>x\<bar>" and "\<bar>x\<bar> < pow2 (e + 1)"
  shows "round_double x = of_int (round_half_even (x / pow2 (e - 52))) * pow2 (e - 52)"
proof -
  have "0 < pow2 e" by (simp add: pow2_def)
  with assms(1) have pos: "0 < \<bar>x\<bar>" by linarith
  then have "\<lfloor>log 2 \<bar>x\<bar>\<rfloor> = e"
    using assms by (simp add: floor_log_eq_powr_iff pow2_powr)
  with pos show ?thesis by (auto simp add: round_double_def Let_def)
qed

lemma round_double_half: "round_double (1/2) = 1/2"
  using round_double_binade [of "- 1" "1/2"] by (simp add: pow2_def round_half_even_def)

lemma round_double_one: "round_double 1 = 1"
  using round_double_binade [of 0 1] by (simp add: pow2_def round_half_even_def)

lemma round_double_two: "round_double 2 = 2"
  using round_double_binade [of 1 2] by (simp add: pow2_def round_half_even_def)


lemma double_add: "fl_add double_ops x y = round_double (x + y)"
  by (simp add: double_ops_def)

lemma double_recip_two: "fl_recip double_ops 2 = Some (1/2)"
  by (simp add: double_ops_def round_double_two round_double_half)


lemma double_grid_half:
  "grid (fl_add double_ops) (1/2) 0 0 = 0"
  "grid (fl_add double_ops) (1/2) 0 (Suc 0) = 1/2"
  "grid (fl_add double_ops) (1/2) 0 (Suc (Suc 0)) = 1"
  by (simp_all add: double_add round_double_half round_double_one)

section \<open>Evaluating a run\<close>

lemma example_frame_sel [simp]:
  "t_rel_sec (example_frame pk did t x) = t"
  "driver_id (example_frame pk did t x) = did"
  "session_id (example_frame pk did t x) = 1"
  by (simp_all add: example_frame_def)

lemma stream_loop_step:
  "current_time \<le> mx \<Longrightarrow>
   stream_loop add fs mx time_step current_time frame_index out =
     stream_loop add fs mx time_step (add current_time time_step)
       (snd (scan_window fs frame_index current_time (add current_time time_step) []))
       (if fst (scan_window fs frame_index current_time (add current_time time_step) []) \<noteq> []
        then out @ [build_replay_frame current_time
                     (fst (scan_window fs frame_index current_time (add current_time time_step) []))]
        else out)"
  by (subst stream_loop.simps) (simp add: Let_def)

lemma stream_loop_stop:
  "mx < current_time \<Longrightarrow> stream_loop add fs mx time_step current_time frame_index out = Some out"
  by (subst stream_loop.simps) simp

lemma ex_tel:
  "get_telemetry_frames (example_db boundary_samples) 1 None = boundary_samples"
  "get_telemetry_frames (example_db three_samples) 1 None = three_samples"
  "get_telemetry_frames (example_db late_samples) 1 None = late_samples"
  "get_telemetry_frames (example_db [example_frame 1 1 0 (1/8)]) 1 None = [example_frame 1 1 0 (1/8)]"
  "get_telemetry_frames (example_db []) 1 None = []"
  by (simp_all add: get_telemetry_frames_def example_db_def)

lemma ex_minmax:
  "min_time boundary_samples = 0" "max_time boundary_samples = 1/2"
  "min_time three_samples = 0" "max_time three_samples = 3/4"
  "min_time late_samples = 10 ^ 16" "max_time late_samples = 10 ^ 16 + 2"
  by (simp_all add: min_time_def max_time_def)

lemma ex_session:
  "get_race_main_session (example_db fs) 7 =
     Inr \<lparr>session_pk = 1, race_id = 7, session_type = ''RACE''\<rparr>"
  by (simp add: get_race_main_session_def example_db_def)

lemma ex_gen:
  "generate_replay_frames double_ops (example_db boundary_samples) 1 2 None =
     Some \<lparr>store_queries = [(1, None)],
           yielded = [build_replay_frame 0 boundary_samples], raised = None\<rparr>"
  by (simp add: generate_replay_frames_def Let_def ex_tel ex_minmax double_recip_two double_add
      round_double_half round_double_one stream_loop_step stream_loop_stop scan_window.simps)

lemma ex_gen_three:
  "generate_replay_frames double_ops (example_db three_samples) 1 2 None =
     Some \<lparr>store_queries = [(1, None)],
           yielded = [build_replay_frame 0 boundary_samples,
                      build_replay_frame (1/2) [example_frame 3 1 (3/4) (5/8)]],
           raised = None\<rparr>"
  by (simp add: generate_replay_frames_def Let_def ex_tel ex_minmax double_recip_two double_add
      round_double_half round_double_one stream_loop_step stream_loop_stop scan_window.simps)

lemma ex_iterations: "iterations (1/2) (1/2) 0 = 2"
  by (simp add: iterations_def)

lemma upt_2: "[0..<2] = [0, Suc 0]"
  by (simp add: numeral_2_eq_2)


lemma ex_run_ends:
  "max_time three_samples < grid (fl_add double_ops) (1/2) (min_time three_samples) (Suc (Suc 0))"
  "\<forall>k<Suc (Suc 0). grid (fl_add double_ops) (1/2) (min_time three_samples) k \<le> max_time three_samples"
  "\<forall>k<Suc (Suc 0). grid (fl_add double_ops) (1/2) (min_time three_samples) k
       \<le> grid (fl_add double_ops) (1/2) (min_time three_samples) (Suc k)"
  by (simp_all add: ex_minmax less_Suc_eq double_grid_half del: grid.simps)

section \<open>Sending the frames\<close>

lemma send_exception_None [simp]: "send_exception r = None \<longleftrightarrow> r = Sent"
  by (cases r) simp_all



section \<open>Claims\<close>

subsection \<open>Last write wins\<close>

text \<open>
  C3. For every window and every driver in it, the car position of the assembled frame for
  that driver carries the fields of the last sample of that driver in input order: its
  driver's code, its two coordinates, its speed and its lap. The cars stand in the order in
  which the drivers first appear, one per driver, and the sample times play no part.
\<close>

theorem build_replay_frame_last_write_wins:
  "cars (build_replay_frame current_time fs) =
     map (\<lambda>s. \<lparr>driver_code = code (driver s),
                 car_x = x_norm s,
                 car_y = y_norm s,
                 car_speed_kph = speed_kph s,
                 lap = lap_number s\<rparr>)
       (map (\<lambda>d. last (filter (\<lambda>f. driver_id f = d) fs))
          (rev (remdups (rev (map driver_id fs)))))"
  by (simp add: build_replay_frame_def group_frames_by_driver_eq car_position_def o_def)

subsection \<open>The driver filter\<close>


subsection \<open>The window of one iteration\<close>

text \<open>
  C1, as the code has it. For every sorted sample list and every iteration of the loop at
  time \<open>current_time\<close>, the window handed to the frame assembler holds exactly the
  samples at or after the cursor whose time lies in the closed interval from
  \<open>current_time\<close> to the end of the window. A sample whose time is exactly the end of
  the window is in the current window. The end of the window is any number here, so also
  the rounded sum the program computes.
\<close>

theorem window_is_closed_interval:
  assumes "sorted (map t_rel_sec fs)"
  shows "fst (scan_window fs frame_index current_time (current_time + time_step) []) =
           filter (\<lambda>f. current_time \<le> t_rel_sec f \<and> t_rel_sec f \<le> current_time + time_step)
             (drop frame_index fs)"
proof -
  have "sorted (map t_rel_sec (drop frame_index fs))"
    using assms by (rule sorted_drop_t)
  then have "takeWhile (\<lambda>f. t_rel_sec f \<le> current_time + time_step) (drop frame_index fs) =
             filter (\<lambda>f. t_rel_sec f \<le> current_time + time_step) (drop frame_index fs)"
    by (rule takeWhile_sorted_filter)
  then show ?thesis
    by (simp add: scan_window_eq conj_commute)
qed

theorem window_is_closed_interval_witness:
  "sorted (map t_rel_sec boundary_samples) \<and>
   fst (scan_window boundary_samples 0 0 (0 + 1/2) []) = boundary_samples"
  using window_is_closed_interval [of boundary_samples 0 0 "1/2"] by simp

text \<open>
  C1, as the claim words it, fails: at two frames per second the first window of the samples
  at times 0 and 1/2 holds both, and the half-open interval from 0 to 1/2 holds only the
  first.
\<close>

theorem window_half_open_counterexample:
  "sorted (map t_rel_sec boundary_samples) \<and>
   fst (scan_window boundary_samples 0 0 (0 + 1/2) []) = boundary_samples \<and>
   spec_window 0 (1/2) boundary_samples = [example_frame 1 1 0 (1/8)] \<and>
   fst (scan_window boundary_samples 0 0 (0 + 1/2) []) \<noteq> spec_window 0 (1/2) boundary_samples \<and>
   t_rel_sec (example_frame 2 2 (1/2) (1/2)) = 0 + 1/2"
  by (simp add: scan_window.simps spec_window_def)

subsection \<open>Frame rate zero\<close>

text \<open>
  C2, as the code has it. A request with frame rate 0 is not rejected before the store is
  read: the generator issues its query first. With no sample it finishes normally without a
  frame; with a sample, computing the step raises \<^verbatim>\<open>ZeroDivisionError\<close>, after the
  samples are loaded and before any frame is yielded.
\<close>

theorem fps_zero_not_rejected:
  "generate_replay_frames ops db sid 0 dids =
     Some \<lparr>store_queries = [(sid, dids)], yielded = [],
           raised = (if get_telemetry_frames db sid dids = [] then None
                     else Some ZeroDivisionError)\<rparr>"
  by (simp add: generate_replay_frames_def Let_def)

text \<open>
  C2, as the claim words it, fails: with frame rate 0 the store is queried and the division
  by zero happens; with frame rate 0 or -5 and an empty session the request is not rejected
  at all.
\<close>

theorem fps_validation_counterexample:
  "generate_replay_frames double_ops (example_db [example_frame 1 1 0 (1/8)]) 1 0 None =
     Some \<lparr>store_queries = [(1, None)], yielded = [], raised = Some ZeroDivisionError\<rparr>
   \<and> generate_replay_frames double_ops (example_db []) 1 0 None =
     Some \<lparr>store_queries = [(1, None)], yielded = [], raised = None\<rparr>
   \<and> generate_replay_frames double_ops (example_db []) 1 (- 5) None =
     Some \<lparr>store_queries = [(1, None)], yielded = [], raised = None\<rparr>"
  by (simp add: generate_replay_frames_def Let_def ex_tel)

subsection \<open>Termination\<close>




subsection \<open>The times of the frames\<close>

text \<open>
  C4, as the code has it. Take a session with at least one sample and a positive frame
  rate, and the values \<open>c 0 = min_time\<close>, \<open>c (k + 1) = c k + step\<close> of \<open>current_time\<close>, the
  sum being the machine's. When the run ends, \<open>c n\<close> being the first value past
  \<open>max_time\<close>, and no addition lowers \<open>current_time\<close>, the times of the frames yielded are
  strictly increasing and are exactly the \<open>c k\<close> before \<open>c n\<close> whose window holds a
  sample, where the window of \<open>c 0\<close> is the closed interval from \<open>c 0\<close> to \<open>c 1\<close> and
  the window of a later \<open>c k\<close> is open at \<open>c k\<close> and closed at \<open>c (k + 1)\<close>. No yielded
  frame has an empty list of cars.
\<close>

theorem frame_times_on_grid:
  assumes "0 < fps" and "get_telemetry_frames db sid dids = tel" and "tel \<noteq> []"
    and "fl_recip ops fps = Some step"
    and "max_time tel < grid (fl_add ops) step (min_time tel) n"
    and "\<forall>k<n. grid (fl_add ops) step (min_time tel) k \<le> max_time tel"
    and "\<forall>k<n. grid (fl_add ops) step (min_time tel) k
                 \<le> grid (fl_add ops) step (min_time tel) (Suc k)"
  shows "\<exists>out. generate_replay_frames ops db sid fps dids =
             Some \<lparr>store_queries = [(sid, dids)], yielded = out, raised = None\<rparr>
         \<and> map frame_t out =
             map (grid (fl_add ops) step (min_time tel))
               (filter (\<lambda>k. filter (in_window (fl_add ops) step (min_time tel) k) tel \<noteq> [])
                  [0..<n])
         \<and> sorted_wrt (<) (map frame_t out)
         \<and> (\<forall>fr\<in>set out. cars fr \<noteq> [])"
proof -
  let ?add = "fl_add ops"
  let ?c = "min_time tel"
  let ?w = "\<lambda>k. filter (in_window ?add step ?c k) (sort_key t_rel_sec tel)"
  let ?out = "map (\<lambda>k. build_replay_frame (grid ?add step ?c k) (?w k))
                (filter (\<lambda>k. ?w k \<noteq> []) [0..<n])"
  have fps: "fps \<noteq> 0" using assms(1) by simp
  have gen: "generate_replay_frames ops db sid fps dids =
      Some \<lparr>store_queries = [(sid, dids)], yielded = ?out, raised = None\<rparr>"
    by (simp only: generate_replay_frames_ends [OF assms(2,3) fps assms(4,5,6)]
        run_windows_closed [OF assms(7)] emit_map)
  have ne: "(?w k \<noteq> []) = (filter (in_window ?add step ?c k) tel \<noteq> [])" for k
    by (rule filter_nonempty_sort_key)
  have times: "map frame_t ?out =
      map (grid ?add step ?c)
        (filter (\<lambda>k. filter (in_window ?add step ?c k) tel \<noteq> []) [0..<n])"
    by (simp add: o_def ne del: grid.simps)
  have "\<forall>k<n. grid ?add step ?c k < grid ?add step ?c (Suc k)"
    using assms(5,6,7) by (rule grid_strict)
  then have sorted: "sorted_wrt (<) (map frame_t ?out)"
    unfolding times by (rule sorted_wrt_grid)
  have cars: "\<forall>fr\<in>set ?out. cars fr \<noteq> []"
    by (auto simp: build_replay_frame_cars_nonempty)
  from gen times sorted cars show ?thesis by blast
qed

theorem frame_times_on_grid_witness:
  "(0::int) < 2 \<and> get_telemetry_frames (example_db three_samples) 1 None = three_samples
   \<and> three_samples \<noteq> [] \<and> fl_recip double_ops 2 = Some (1/2)
   \<and> max_time three_samples < grid (fl_add double_ops) (1/2) (min_time three_samples) (Suc (Suc 0))
   \<and> (\<exists>out. generate_replay_frames double_ops (example_db three_samples) 1 2 None =
               Some \<lparr>store_queries = [(1, None)], yielded = out, raised = None\<rparr>
             \<and> map frame_t out = [0, 1/2])"
proof -
  have fps: "(0::int) < 2" by simp
  have ne: "three_samples \<noteq> []" by simp
  from frame_times_on_grid [OF fps ex_tel(2) ne double_recip_two ex_run_ends] obtain out where
    run: "generate_replay_frames double_ops (example_db three_samples) 1 2 None =
            Some \<lparr>store_queries = [(1, None)], yielded = out, raised = None\<rparr>"
    and times: "map frame_t out =
      map (grid (fl_add double_ops) (1/2) (min_time three_samples))
        (filter (\<lambda>k. filter (in_window (fl_add double_ops) (1/2) (min_time three_samples) k)
                         three_samples \<noteq> [])
           [0..<Suc (Suc 0)])"
    by blast
  have "map frame_t out = [0, 1/2]"
    unfolding times by (simp add: ex_minmax in_window_def double_grid_half del: grid.simps)
  with run have "\<exists>out. generate_replay_frames double_ops (example_db three_samples) 1 2 None =
               Some \<lparr>store_queries = [(1, None)], yielded = out, raised = None\<rparr>
             \<and> map frame_t out = [0, 1/2]"
    by (intro exI [of _ out] conjI)
  with fps ex_tel(2) ne double_recip_two ex_run_ends(1) show ?thesis by (intro conjI)
qed

text \<open>
  C4, with the half-open windows of the specification, fails: at two frames per second the
  samples at times 0 and 1/2 give one frame, at time 0, while the half-open window of the
  grid point 1/2 holds the second sample. All the numbers of this run are doubles and all
  its sums are exact.
\<close>

theorem frame_times_counterexample:
  "generate_replay_frames double_ops (example_db boundary_samples) 1 2 None =
     Some \<lparr>store_queries = [(1, None)],
           yielded = [build_replay_frame 0 boundary_samples], raised = None\<rparr>
   \<and> map frame_t [build_replay_frame 0 boundary_samples] = [0]
   \<and> spec_frame_times boundary_samples (1/2) = [0, 1/2]"
  by (simp add: ex_gen spec_frame_times_def spec_window_def ex_minmax ex_iterations upt_2)

subsection \<open>Every sample in one window\<close>



subsection \<open>The empty session\<close>

text \<open>
  C6. For every session whose telemetry query returns no sample, whatever the frame rate,
  the generator yields no frame and finishes without an exception, and the endpoint sends
  the completion message and nothing else (the sink accepting it).
\<close>

theorem empty_session_completes:
  assumes "get_race_main_session db rid = Inr s"
    and "get_telemetry_frames db (session_pk s) None = []"
    and "sink 0 = Sent"
  shows "generate_replay_frames ops db (session_pk s) fps None =
           Some \<lparr>store_queries = [(session_pk s, None)], yielded = [], raised = None\<rparr>
         \<and> replay_race ops sink db rid fps = Some [(Complete, Sent)]"
  using assms
  by (simp add: replay_race_def replay_session_websocket_def generate_replay_frames_def Let_def)

theorem empty_session_completes_witness:
  "get_race_main_session (example_db []) 7 = Inr \<lparr>session_pk = 1, race_id = 7, session_type = ''RACE''\<rparr>
   \<and> get_telemetry_frames (example_db []) 1 None = []
   \<and> generate_replay_frames double_ops (example_db []) 1 10 None =
        Some \<lparr>store_queries = [(1, None)], yielded = [], raised = None\<rparr>
   \<and> replay_race double_ops (\<lambda>k. Sent) (example_db []) 7 10 = Some [(Complete, Sent)]"
  using empty_session_completes [of "example_db []" 7
      "\<lparr>session_pk = 1, race_id = 7, session_type = ''RACE''\<rparr>" "\<lambda>k. Sent" double_ops 10]
  by (simp add: ex_session ex_tel)

subsection \<open>The completion message\<close>



end
